theory Spec2Isabelle
  imports Main "HOL-Library.Word"
begin

section \<open>Strings of the program\<close>

text \<open>
  The program is built for Windows: \<^verbatim>\<open>wchar_t\<close> is a 16-bit code unit and
  \<^verbatim>\<open>std::wstring\<close> a sequence of them; \<^verbatim>\<open>std::string\<close> is a sequence of
  8-bit \<^verbatim>\<open>char\<close>s. Positions and sizes are \<^verbatim>\<open>size_t\<close>; every string here is far
  shorter than \<open>2 ^ 64\<close>, so they are natural numbers, and \<^verbatim>\<open>npos\<close> is \<open>None\<close>.
\<close>

type_synonym wchar = "16 word"
type_synonym wstring = "wchar list"
type_synonym cchar = "8 word"
type_synonym cstring = "cchar list"

text \<open>A literal of the source, \<^verbatim>\<open>L"..."\<close> or \<^verbatim>\<open>"..."\<close>, from its ASCII text.\<close>

definition wide :: "string \<Rightarrow> wstring" where
  "wide s = map of_char s"

definition narrow :: "string \<Rightarrow> cstring" where
  "narrow s = map of_char s"

text \<open>
  \<^verbatim>\<open>basic_string::substr(pos, n)\<close> throws \<^verbatim>\<open>std::out_of_range\<close> when \<open>pos\<close> is
  beyond the size; otherwise it returns at most \<open>n\<close> characters from \<open>pos\<close>.
  \<open>substr_rest\<close> is the call with one argument (\<open>n = npos\<close>).
\<close>

datatype error = OutOfRange

definition substr :: "'a list \<Rightarrow> nat \<Rightarrow> nat \<Rightarrow> error + 'a list" where
  "substr s pos n = (if length s < pos then Inl OutOfRange else Inr (take n (drop pos s)))"

definition substr_rest :: "'a list \<Rightarrow> nat \<Rightarrow> error + 'a list" where
  "substr_rest s pos = (if length s < pos then Inl OutOfRange else Inr (drop pos s))"

text \<open>
  \<^verbatim>\<open>basic_string::find(pat, pos)\<close>: the least position \<open>\<ge> pos\<close> where \<open>pat\<close>
  stands in \<open>s\<close>, \<^verbatim>\<open>npos\<close> when there is none.
\<close>

fun starts_with :: "'a list \<Rightarrow> 'a list \<Rightarrow> bool" where
  "starts_with s [] = True"
| "starts_with [] (p # ps) = False"
| "starts_with (c # cs) (p # ps) = (c = p \<and> starts_with cs ps)"

fun find_scan :: "'a list \<Rightarrow> 'a list \<Rightarrow> nat \<Rightarrow> nat option" where
  "find_scan pat [] i = (if pat = [] then Some i else None)"
| "find_scan pat (c # cs) i =
     (if starts_with (c # cs) pat then Some i else find_scan pat cs (Suc i))"

definition find_str :: "'a list \<Rightarrow> 'a list \<Rightarrow> nat \<Rightarrow> nat option" where
  "find_str s pat pos = (if length s < pos then None else find_scan pat (drop pos s) pos)"

text \<open>The two loops of \<^verbatim>\<open>trim_w\<close>, over indices as in the source.\<close>

function skip_front :: "('a \<Rightarrow> bool) \<Rightarrow> 'a list \<Rightarrow> nat \<Rightarrow> nat" where
  "skip_front sp s a = (if a < length s \<and> sp (s ! a) then skip_front sp s (Suc a) else a)"
  by pat_completeness auto
termination
  by (relation "measure (\<lambda>(sp, s, a). length s - a)") auto

function skip_back :: "('a \<Rightarrow> bool) \<Rightarrow> 'a list \<Rightarrow> nat \<Rightarrow> nat \<Rightarrow> nat" where
  "skip_back sp s a b = (if a < b \<and> sp (s ! (b - 1)) then skip_back sp s a (b - 1) else b)"
  by pat_completeness auto
termination
  by (relation "measure (\<lambda>(sp, s, a, b). b)") auto

declare skip_front.simps [simp del]
declare skip_back.simps [simp del]

text \<open>
  The C library and the Windows API are not code of the repository. What the program
  calls of them is a parameter of the model: \<^verbatim>\<open>towlower\<close> and \<^verbatim>\<open>iswspace\<close> on wide
  characters, \<^verbatim>\<open>std::tolower\<close> and \<^verbatim>\<open>isspace\<close> on bytes, and the conversion the two
  calls of \<^verbatim>\<open>MultiByteToWideChar(CP_UTF8, ...)\<close> perform together: the first call
  returns the length of the converted string (0 when it fails), the second one fills
  a string of that length.
\<close>

record clib =
  towlower :: "wchar \<Rightarrow> wchar"
  iswspace :: "wchar \<Rightarrow> bool"
  tolower :: "cchar \<Rightarrow> cchar"
  isspace :: "cchar \<Rightarrow> bool"
  MultiByteToWideChar :: "cstring \<Rightarrow> wstring"

definition trim_w :: "clib \<Rightarrow> wstring \<Rightarrow> error + wstring" where
  "trim_w L s =
     (let a = skip_front (iswspace L) s 0;
          b = skip_back (iswspace L) s a (length s)
      in substr s a (b - a))"

text \<open>
  \<^verbatim>\<open>tolower_w\<close>: a copy of the string, \<^verbatim>\<open>std::transform\<close>ed by \<^verbatim>\<open>towlower\<close>.
\<close>

definition tolower_w :: "clib \<Rightarrow> wstring \<Rightarrow> wstring" where
  "tolower_w L s = map (towlower L) s"

section \<open>The structured extractor\<close>

definition tag1 :: wstring where
  "tag1 = wide ''<keymaterial>''"

definition tag2 :: wstring where
  "tag2 = wide ''</keymaterial>''"

text \<open>The empty string is the function's "not found".\<close>

definition extractKeyMaterial :: "clib \<Rightarrow> wstring \<Rightarrow> error + wstring" where
  "extractKeyMaterial L xml =
     (let low = tolower_w L xml in
      case find_str low tag1 0 of
        None \<Rightarrow> Inr []
      | Some p \<Rightarrow>
          (let p1 = p + length tag1 in
           case find_str low tag2 p1 of
             None \<Rightarrow> Inr []
           | Some p2 \<Rightarrow>
               (case substr xml p1 (p2 - p1) of
                  Inl e \<Rightarrow> Inl e
                | Inr t \<Rightarrow> trim_w L t)))"

section \<open>The fallback extractor\<close>

text \<open>
  \<^verbatim>\<open>try_netsh_parse\<close> reads the output of \<^verbatim>\<open>netsh\<close> from a pipe. The model starts
  from what the pipe delivers: \<open>None\<close> when \<^verbatim>\<open>_popen\<close> fails, otherwise the
  characters \<^verbatim>\<open>fgets\<close> reads, in order.

  \<^verbatim>\<open>fgets(buf, n, pipe)\<close> stores at most \<open>n - 1\<close> characters, stops after a
  newline, and returns \<^verbatim>\<open>NULL\<close> when the pipe is at its end. It yields the buffer and
  what is left in the pipe.
\<close>

fun read_chars :: "nat \<Rightarrow> cstring \<Rightarrow> cstring" where
  "read_chars 0 s = []"
| "read_chars (Suc k) [] = []"
| "read_chars (Suc k) (c # cs) = (if c = 0x0A then [c] else c # read_chars k cs)"

definition fgets :: "nat \<Rightarrow> cstring \<Rightarrow> (cstring \<times> cstring) option" where
  "fgets n pipe =
     (if pipe = [] then None
      else (let buf = read_chars (n - 1) pipe in Some (buf, drop (length buf) pipe)))"

text \<open>\<^verbatim>\<open>std::string line(buf)\<close>: the buffer up to its first NUL.\<close>

definition c_str :: "cstring \<Rightarrow> cstring" where
  "c_str buf = takeWhile (\<lambda>c. c \<noteq> 0) buf"

definition key_content :: cstring where
  "key_content = narrow ''key content''"

text \<open>The second label, in the bytes of the source file (UTF-8, 22 of them).\<close>

definition key_content_ja :: cstring where
  "key_content_ja =
     [0xE3, 0x82, 0xAD, 0xE3, 0x83, 0xBC, 0x20, 0xE3, 0x82, 0xB3, 0xE3, 0x83, 0xB3,
      0xE3, 0x83, 0x86, 0xE3, 0x83, 0xB3, 0xE3, 0x83, 0x84]"

definition colon :: cchar where
  "colon = 0x3A"

text \<open>The variable \<^verbatim>\<open>pos\<close> of the loop body.\<close>

definition label_pos :: "clib \<Rightarrow> cstring \<Rightarrow> nat option" where
  "label_pos L line =
     (let low = map (tolower L) line in
      case find_str low key_content 0 of
        None \<Rightarrow> find_str low key_content_ja 0
      | Some pos \<Rightarrow> Some pos)"

text \<open>
  The body of the innermost \<^verbatim>\<open>if\<close>, before its \<^verbatim>\<open>break\<close>: the value of
  \<^verbatim>\<open>found\<close> afterwards.
\<close>

definition parse_value :: "clib \<Rightarrow> cstring \<Rightarrow> nat \<Rightarrow> wstring \<Rightarrow> error + wstring" where
  "parse_value L line col found =
     (case substr_rest line (col + 1) of
        Inl e \<Rightarrow> Inl e
      | Inr val \<Rightarrow>
          (let a = skip_front (isspace L) val 0;
               b = skip_back (isspace L) val a (length val)
           in case substr val a (b - a) of
                Inl e \<Rightarrow> Inl e
              | Inr trimmed_val \<Rightarrow>
                  (let wlen = length (MultiByteToWideChar L trimmed_val) in
                   if 0 < wlen then trim_w L (MultiByteToWideChar L trimmed_val)
                   else Inr found)))"

text \<open>
  One turn of the loop on the line read: whether it leaves the loop (\<^verbatim>\<open>break\<close>), and
  \<^verbatim>\<open>found\<close> afterwards.
\<close>

definition line_step :: "clib \<Rightarrow> cstring \<Rightarrow> wstring \<Rightarrow> error + (bool \<times> wstring)" where
  "line_step L line found =
     (case label_pos L line of
        None \<Rightarrow> Inr (False, found)
      | Some pos \<Rightarrow>
          (case find_str line [colon] pos of
             None \<Rightarrow> Inr (False, found)
           | Some col \<Rightarrow>
               if col + 1 < length line then
                 (case parse_value L line col found of
                    Inl e \<Rightarrow> Inl e
                  | Inr found' \<Rightarrow> Inr (True, found'))
               else Inr (False, found)))"

function netsh_loop :: "clib \<Rightarrow> cstring \<Rightarrow> wstring \<Rightarrow> error + wstring" where
  "netsh_loop L pipe found =
     (case fgets 512 pipe of
        None \<Rightarrow> Inr found
      | Some (buf, rest) \<Rightarrow>
          (case line_step L (c_str buf) found of
             Inl e \<Rightarrow> Inl e
           | Inr (brk, found') \<Rightarrow>
               if brk then Inr found' else netsh_loop L rest found'))"
  by pat_completeness auto
termination
proof (relation "measure (\<lambda>(L, pipe, found). length pipe)")
  show "wf (measure (\<lambda>(L, pipe, found). length pipe))" by simp
next
  fix L :: clib and pipe :: cstring and found found' :: wstring
    and x2 buf rest x2a brk
  assume "fgets 512 pipe = Some x2" "(buf, rest) = x2"
  then have f: "fgets 512 pipe = Some (buf, rest)" by simp
  then obtain c cs where p: "pipe = c # cs" by (cases pipe) (auto simp: fgets_def)
  define b where "b = read_chars (512 - 1) pipe"
  have n: "(512::nat) - 1 = Suc 510" by simp
  have "b \<noteq> []" unfolding b_def n p by (simp only: read_chars.simps) simp
  moreover from f p have "rest = drop (length b) pipe"
    by (auto simp: fgets_def Let_def b_def)
  ultimately have "length rest < length pipe" using p by simp
  then show "((L, rest, found'), L, pipe, found) \<in> measure (\<lambda>(L, pipe, found). length pipe)"
    by simp
qed

declare netsh_loop.simps [simp del]

definition try_netsh_parse :: "clib \<Rightarrow> cstring option \<Rightarrow> error + wstring" where
  "try_netsh_parse L pipe =
     (case pipe of
        None \<Rightarrow> Inr []
      | Some out \<Rightarrow> netsh_loop L out [])"

section \<open>One profile in \<^verbatim>\<open>wmain\<close>\<close>

text \<open>
  The body of the inner loop of \<^verbatim>\<open>wmain\<close>, from \<^verbatim>\<open>std::wstring password\<close> to the
  \<^verbatim>\<open>PASS\<close> line it prints. \<open>descriptor\<close> is the XML of \<^verbatim>\<open>WlanGetProfile\<close>, \<open>None\<close>
  unless the call returned \<^verbatim>\<open>ERROR_SUCCESS\<close> and a non-null pointer. The calls of the
  two extractors are recorded in order.
\<close>

datatype call = ExtractKeyMaterial | TryNetshParse

datatype pass_line = Pass wstring | NotAvailable

definition profile_password ::
  "clib \<Rightarrow> wstring option \<Rightarrow> cstring option \<Rightarrow> error + (wstring \<times> call list)" where
  "profile_password L descriptor pipe =
     (case (case descriptor of
              None \<Rightarrow> Inr ([], [])
            | Some xml \<Rightarrow>
                (case extractKeyMaterial L xml of
                   Inl e \<Rightarrow> Inl e
                 | Inr password \<Rightarrow> Inr (password, [ExtractKeyMaterial]))) of
        Inl e \<Rightarrow> Inl e
      | Inr (password, calls) \<Rightarrow>
          if password = [] then
            (case try_netsh_parse L pipe of
               Inl e \<Rightarrow> Inl e
             | Inr password' \<Rightarrow> Inr (password', calls @ [TryNetshParse]))
          else Inr (password, calls))"

definition profile_report ::
  "clib \<Rightarrow> wstring option \<Rightarrow> cstring option \<Rightarrow> error + (pass_line \<times> call list)" where
  "profile_report L descriptor pipe =
     (case profile_password L descriptor pipe of
        Inl e \<Rightarrow> Inl e
      | Inr (password, calls) \<Rightarrow>
          Inr (if password \<noteq> [] then Pass password else NotAvailable, calls))"

section \<open>The extractors on a store of string objects\<close>

text \<open>
  To say that an extractor leaves its input as it is, the strings are objects of a
  store, addressed by their index. A parameter \<^verbatim>\<open>const std::wstring&\<close> is the address
  of the caller's string. \<^verbatim>\<open>std::wstring r = s\<close> makes a new object with the
  characters of \<open>s\<close>, and \<^verbatim>\<open>std::transform(r.begin(), r.end(), r.begin(), f)\<close>
  writes the characters of \<open>r\<close> one after the other, in place. Strings returned by
  value (\<^verbatim>\<open>substr\<close>, \<^verbatim>\<open>trim_w\<close>) are values of the model.
\<close>

type_synonym 'c store = "'c list list"

definition new_string :: "'c store \<Rightarrow> 'c list \<Rightarrow> nat \<times> 'c store" where
  "new_string h s = (length h, h @ [s])"

function transform_in_place :: "('c \<Rightarrow> 'c) \<Rightarrow> 'c store \<Rightarrow> nat \<Rightarrow> nat \<Rightarrow> 'c store" where
  "transform_in_place f h r i =
     (if i < length (h ! r)
      then transform_in_place f (h[r := (h ! r)[i := f (h ! r ! i)]]) r (Suc i)
      else h)"
  by pat_completeness auto
termination
proof (relation "measure (\<lambda>(f, h, r, i). length (h ! r) - i)")
  show "wf (measure (\<lambda>(f, h, r, i). length (h ! r) - i))" by simp
next
  fix f :: "'c \<Rightarrow> 'c" and h :: "'c store" and r i :: nat
  assume i: "i < length (h ! r)"
  have "length (h[r := (h ! r)[i := f (h ! r ! i)]] ! r) = length (h ! r)"
    by (cases "r < length h") (simp_all add: list_update_beyond)
  with i show "((f, h[r := (h ! r)[i := f (h ! r ! i)]], r, Suc i), f, h, r, i)
      \<in> measure (\<lambda>(f, h, r, i). length (h ! r) - i)"
    by simp
qed

declare transform_in_place.simps [simp del]

definition tolower_w_store :: "clib \<Rightarrow> wchar store \<Rightarrow> nat \<Rightarrow> nat \<times> wchar store" where
  "tolower_w_store L h s =
     (let (r, h1) = new_string h (h ! s)
      in (r, transform_in_place (towlower L) h1 r 0))"

definition extractKeyMaterial_store ::
  "clib \<Rightarrow> wchar store \<Rightarrow> nat \<Rightarrow> (error + wstring) \<times> wchar store" where
  "extractKeyMaterial_store L h xml =
     (let (low, h1) = tolower_w_store L h xml in
      case find_str (h1 ! low) tag1 0 of
        None \<Rightarrow> (Inr [], h1)
      | Some p \<Rightarrow>
          (let p1 = p + length tag1 in
           case find_str (h1 ! low) tag2 p1 of
             None \<Rightarrow> (Inr [], h1)
           | Some p2 \<Rightarrow>
               (case substr (h1 ! xml) p1 (p2 - p1) of
                  Inl e \<Rightarrow> (Inl e, h1)
                | Inr t \<Rightarrow> (trim_w L t, h1))))"

text \<open>
  The body of the loop of \<^verbatim>\<open>try_netsh_parse\<close>, from \<^verbatim>\<open>std::string low = line\<close> on,
  with \<open>line\<close> the address of the line read.
\<close>

definition line_step_store ::
  "clib \<Rightarrow> cchar store \<Rightarrow> nat \<Rightarrow> wstring \<Rightarrow> (error + (bool \<times> wstring)) \<times> cchar store" where
  "line_step_store L h line found =
     (let (low, h1) = new_string h (h ! line);
          h2 = transform_in_place (tolower L) h1 low 0;
          pos = (case find_str (h2 ! low) key_content 0 of
                   None \<Rightarrow> find_str (h2 ! low) key_content_ja 0
                 | Some p \<Rightarrow> Some p)
      in case pos of
           None \<Rightarrow> (Inr (False, found), h2)
         | Some p \<Rightarrow>
             (case find_str (h2 ! line) [colon] p of
                None \<Rightarrow> (Inr (False, found), h2)
              | Some col \<Rightarrow>
                  if col + 1 < length (h2 ! line) then
                    (case parse_value L (h2 ! line) col found of
                       Inl e \<Rightarrow> (Inl e, h2)
                     | Inr found' \<Rightarrow> (Inr (True, found'), h2))
                  else (Inr (False, found), h2)))"

section \<open>A C library for the examples\<close>

text \<open>
  The examples run with the values the library has on 7-bit characters in the "C"
  locale (the program never calls \<^verbatim>\<open>setlocale\<close>): the letters \<open>A\<close> to \<open>Z\<close> are
  lowered, white space is the space and the characters 9 to 13, and the conversion
  from UTF-8 keeps a 7-bit character as it is. No example hands the conversion a
  byte beyond 7 bits.
\<close>

definition ascii_lower :: "'a::len word \<Rightarrow> 'a word" where
  "ascii_lower c = (if 0x41 \<le> c \<and> c \<le> 0x5A then c + 0x20 else c)"

definition ascii_space :: "'a::len word \<Rightarrow> bool" where
  "ascii_space c = (c = 0x20 \<or> (0x09 \<le> c \<and> c \<le> 0x0D))"

definition ascii_clib :: clib where
  "ascii_clib =
     \<lparr>towlower = ascii_lower, iswspace = ascii_space,
      tolower = ascii_lower, isspace = ascii_space,
      MultiByteToWideChar = map ucast\<rparr>"

section \<open>Vocabulary of the statements\<close>

text \<open>\<open>pat\<close> stands in \<open>s\<close> at position \<open>i\<close>.\<close>

definition occurs_at :: "'a list \<Rightarrow> 'a list \<Rightarrow> nat \<Rightarrow> bool" where
  "occurs_at pat s i = (i + length pat \<le> length s \<and> take (length pat) (drop i s) = pat)"

text \<open>A string without its leading and its trailing white space.\<close>

definition trimmed :: "('a \<Rightarrow> bool) \<Rightarrow> 'a list \<Rightarrow> 'a list" where
  "trimmed sp s = rev (dropWhile sp (rev (dropWhile sp s)))"

text \<open>The lines the loop of \<^verbatim>\<open>try_netsh_parse\<close> sees, one for each \<^verbatim>\<open>fgets\<close>.\<close>

function lines_of :: "cstring \<Rightarrow> cstring list" where
  "lines_of pipe =
     (case fgets 512 pipe of
        None \<Rightarrow> []
      | Some (buf, rest) \<Rightarrow> c_str buf # lines_of rest)"
  by pat_completeness auto
termination
proof (relation "measure length")
  show "wf (measure length)" by simp
next
  fix pipe :: cstring and x2 buf rest
  assume "fgets 512 pipe = Some x2" "(buf, rest) = x2"
  then have f: "fgets 512 pipe = Some (buf, rest)" by simp
  then obtain c cs where p: "pipe = c # cs" by (cases pipe) (auto simp: fgets_def)
  define b where "b = read_chars (512 - 1) pipe"
  have n: "(512::nat) - 1 = Suc 510" by simp
  have "b \<noteq> []" unfolding b_def n p by (simp only: read_chars.simps) simp
  moreover from f p have "rest = drop (length b) pipe"
    by (auto simp: fgets_def Let_def b_def)
  ultimately have "length rest < length pipe" using p by simp
  then show "(rest, pipe) \<in> measure length" by simp
qed

declare lines_of.simps [simp del]

text \<open>
  The colon that makes the loop stop at a line: the first one at or after the label,
  when it is not the last character of the line.
\<close>

definition value_colon :: "clib \<Rightarrow> cstring \<Rightarrow> nat option" where
  "value_colon L line =
     (case label_pos L line of
        None \<Rightarrow> None
      | Some pos \<Rightarrow>
          (case find_str line [colon] pos of
             None \<Rightarrow> None
           | Some col \<Rightarrow> if col + 1 < length line then Some col else None))"

text \<open>The value a line gives: what follows the colon, trimmed, converted, trimmed.\<close>

definition line_value :: "clib \<Rightarrow> cstring \<Rightarrow> wstring" where
  "line_value L v =
     (let w = MultiByteToWideChar L (trimmed (isspace L) v)
      in if w = [] then [] else trimmed (iswspace L) w)"

section \<open>Searching\<close>

lemma starts_with_iff: "starts_with s pat = occurs_at pat s 0"
  by (induction s pat rule: starts_with.induct) (auto simp: occurs_at_def)

lemma occurs_at_Cons: "occurs_at pat (c # cs) (Suc k) = occurs_at pat cs k"
  by (simp add: occurs_at_def)

lemma occurs_at_Nil: "occurs_at pat [] k = (pat = [] \<and> k = 0)"
  by (auto simp: occurs_at_def)

lemma find_scan_Some:
  "find_scan pat s i = Some j \<longleftrightarrow>
     i \<le> j \<and> occurs_at pat s (j - i) \<and> (\<forall>k<j - i. \<not> occurs_at pat s k)"
proof (induction s arbitrary: i)
  case Nil
  then show ?case by (auto simp: occurs_at_Nil)
next
  case (Cons c cs)
  show ?case
  proof (cases "starts_with (c # cs) pat")
    case True
    then have "occurs_at pat (c # cs) 0" by (simp add: starts_with_iff)
    with True show ?thesis by (cases "j - i") auto
  next
    case False
    then have no0: "\<not> occurs_at pat (c # cs) 0" by (simp add: starts_with_iff)
    have "find_scan pat (c # cs) i = Some j \<longleftrightarrow> find_scan pat cs (Suc i) = Some j"
      using False by simp
    also have "\<dots> \<longleftrightarrow> Suc i \<le> j \<and> occurs_at pat cs (j - Suc i)
        \<and> (\<forall>k<j - Suc i. \<not> occurs_at pat cs k)"
      by (rule Cons.IH)
    also have "\<dots> \<longleftrightarrow> i \<le> j \<and> occurs_at pat (c # cs) (j - i)
        \<and> (\<forall>k<j - i. \<not> occurs_at pat (c # cs) k)"
    proof (cases "i < j")
      case True
      then obtain d where d: "j - i = Suc d" "j - Suc i = d"
        by (metis Suc_diff_Suc)
      have "(\<forall>k<Suc d. \<not> occurs_at pat (c # cs) k) \<longleftrightarrow> (\<forall>k<d. \<not> occurs_at pat cs k)"
        using no0 by (auto simp: less_Suc_eq_0_disj occurs_at_Cons)
      with True d show ?thesis by (simp add: occurs_at_Cons)
    next
      case False
      then show ?thesis using no0 by (cases "i = j") auto
    qed
    finally show ?thesis .
  qed
qed

lemma find_scan_None: "find_scan pat s i = None \<longleftrightarrow> (\<forall>k. \<not> occurs_at pat s k)"
proof (induction s arbitrary: i)
  case Nil
  then show ?case by (auto simp: occurs_at_Nil)
next
  case (Cons c cs)
  have "(\<forall>k. \<not> occurs_at pat (c # cs) k) \<longleftrightarrow>
        \<not> occurs_at pat (c # cs) 0 \<and> (\<forall>k. \<not> occurs_at pat cs k)"
    by (metis occurs_at_Cons not0_implies_Suc)
  with Cons show ?case by (simp add: starts_with_iff)
qed

lemma occurs_at_drop:
  "pos \<le> length s \<Longrightarrow> occurs_at pat (drop pos s) k = occurs_at pat s (pos + k)"
  by (auto simp: occurs_at_def add.commute)

lemma occurs_at_bound: "occurs_at pat s k \<Longrightarrow> k \<le> length s"
  by (simp add: occurs_at_def)

lemma find_str_Some:
  "find_str s pat pos = Some j \<longleftrightarrow>
     pos \<le> j \<and> occurs_at pat s j \<and> (\<forall>k. pos \<le> k \<and> k < j \<longrightarrow> \<not> occurs_at pat s k)"
proof (cases "length s < pos")
  case True
  then show ?thesis
    using occurs_at_bound [of pat s j] by (auto simp: find_str_def)
next
  case False
  then have le: "pos \<le> length s" by simp
  have "(\<forall>k<j - pos. \<not> occurs_at pat s (pos + k)) \<longleftrightarrow>
        (\<forall>k. pos \<le> k \<and> k < j \<longrightarrow> \<not> occurs_at pat s k)"
  proof
    assume a: "\<forall>k<j - pos. \<not> occurs_at pat s (pos + k)"
    show "\<forall>k. pos \<le> k \<and> k < j \<longrightarrow> \<not> occurs_at pat s k"
    proof (intro allI impI)
      fix k assume "pos \<le> k \<and> k < j"
      then have "k - pos < j - pos" "pos + (k - pos) = k" by auto
      with a show "\<not> occurs_at pat s k" by metis
    qed
  next
    assume "\<forall>k. pos \<le> k \<and> k < j \<longrightarrow> \<not> occurs_at pat s k"
    then show "\<forall>k<j - pos. \<not> occurs_at pat s (pos + k)" by auto
  qed
  with le show ?thesis
    by (auto simp: find_str_def find_scan_Some occurs_at_drop)
qed

lemma find_str_None:
  "find_str s pat pos = None \<longleftrightarrow> (\<forall>k. pos \<le> k \<longrightarrow> \<not> occurs_at pat s k)"
proof (cases "length s < pos")
  case True
  then show ?thesis
    using occurs_at_bound [of pat s] by (fastforce simp: find_str_def)
next
  case False
  then have le: "pos \<le> length s" by simp
  have "(\<forall>k. \<not> occurs_at pat s (pos + k)) \<longleftrightarrow> (\<forall>k. pos \<le> k \<longrightarrow> \<not> occurs_at pat s k)"
    by (metis le_add1 le_add_diff_inverse)
  with le show ?thesis
    by (simp add: find_str_def find_scan_None occurs_at_drop)
qed

section \<open>Trimming\<close>

lemma skip_front_eq:
  "a \<le> length s \<Longrightarrow> skip_front sp s a = a + length (takeWhile sp (drop a s))"
proof (induction sp s a rule: skip_front.induct)
  case (1 sp s a)
  show ?case
  proof (cases "a < length s \<and> sp (s ! a)")
    case True
    then have d: "drop a s = s ! a # drop (Suc a) s" by (simp add: Cons_nth_drop_Suc)
    have "skip_front sp s a = skip_front sp s (Suc a)"
      using True skip_front.simps [of sp s a] by simp
    also have "\<dots> = Suc a + length (takeWhile sp (drop (Suc a) s))"
      using True "1.IH" by simp
    finally show ?thesis using True d by simp
  next
    case False
    have "skip_front sp s a = a"
      using False skip_front.simps [of sp s a] by auto
    moreover have "takeWhile sp (drop a s) = []"
    proof (cases "a < length s")
      case True
      with False have "\<not> sp (s ! a)" by simp
      with True show ?thesis by (simp add: Cons_nth_drop_Suc [symmetric])
    next
      case False
      then show ?thesis by simp
    qed
    ultimately show ?thesis by simp
  qed
qed

lemma take_drop_snoc:
  assumes "a < b" "b \<le> length s"
  shows "take (b - a) (drop a s) = take (b - 1 - a) (drop a s) @ [s ! (b - 1)]"
proof -
  have i: "b - 1 - a < length (drop a s)" using assms by simp
  have "take (Suc (b - 1 - a)) (drop a s) = take (b - 1 - a) (drop a s) @ [drop a s ! (b - 1 - a)]"
    using i by (rule take_Suc_conv_app_nth)
  moreover have "Suc (b - 1 - a) = b - a" using assms by simp
  moreover have "drop a s ! (b - 1 - a) = s ! (b - 1)" using assms by simp
  ultimately show ?thesis by simp
qed

lemma skip_back_eq:
  "a \<le> b \<Longrightarrow> b \<le> length s \<Longrightarrow>
   skip_back sp s a b = a + length (dropWhile sp (rev (take (b - a) (drop a s))))"
proof (induction sp s a b rule: skip_back.induct)
  case (1 sp s a b)
  show ?case
  proof (cases "a < b")
    case False
    with "1.prems" have "a = b" by simp
    then show ?thesis using skip_back.simps [of sp s a b] by simp
  next
    case True
    with "1.prems" have t: "take (b - a) (drop a s) = take (b - 1 - a) (drop a s) @ [s ! (b - 1)]"
      by (simp add: take_drop_snoc)
    show ?thesis
    proof (cases "sp (s ! (b - 1))")
      case sp: True
      with True have "skip_back sp s a b = skip_back sp s a (b - 1)"
        using skip_back.simps [of sp s a b] by simp
      also have "\<dots> = a + length (dropWhile sp (rev (take (b - 1 - a) (drop a s))))"
        using True sp "1.IH" "1.prems" by simp
      finally show ?thesis using t sp by simp
    next
      case False
      then have "skip_back sp s a b = b" using skip_back.simps [of sp s a b] by simp
      with False t True "1.prems" show ?thesis by simp
    qed
  qed
qed

lemma take_length_dropWhile_rev:
  "take (length (dropWhile P (rev d))) d = rev (dropWhile P (rev d))"
proof -
  have "rev d = takeWhile P (rev d) @ dropWhile P (rev d)" by simp
  then have "d = rev (dropWhile P (rev d)) @ rev (takeWhile P (rev d))"
    by (metis rev_append rev_rev_ident)
  then have "take (length (rev (dropWhile P (rev d)))) d = rev (dropWhile P (rev d))"
    by (metis append_eq_conv_conj)
  then show ?thesis by simp
qed

lemma trim_loops:
  "substr s (skip_front sp s 0)
     (skip_back sp s (skip_front sp s 0) (length s) - skip_front sp s 0) =
   Inr (trimmed sp s)"
proof -
  define a where "a = skip_front sp s 0"
  define b where "b = skip_back sp s a (length s)"
  have a: "a = length (takeWhile sp s)" by (simp add: a_def skip_front_eq)
  then have al: "a \<le> length s" by (simp add: length_takeWhile_le)
  have d: "drop a s = dropWhile sp s" by (simp add: a dropWhile_eq_drop)
  have "take (length s - a) (drop a s) = drop a s" by simp
  then have b: "b = a + length (dropWhile sp (rev (dropWhile sp s)))"
    using al by (simp only: b_def skip_back_eq [OF al le_refl] d)
  have "substr s a (b - a) = Inr (take (b - a) (drop a s))" using al by (simp add: substr_def)
  also have "take (b - a) (drop a s) = trimmed sp s"
    by (simp add: b d trimmed_def take_length_dropWhile_rev)
  finally show ?thesis by (simp add: a_def b_def)
qed

lemma trim_w_eq: "trim_w L s = Inr (trimmed (iswspace L) s)"
  by (simp add: trim_w_def Let_def trim_loops)

lemma trimmed_ends:
  "trimmed sp s \<noteq> [] \<Longrightarrow> \<not> sp (hd (trimmed sp s)) \<and> \<not> sp (last (trimmed sp s))"
proof -
  assume ne: "trimmed sp s \<noteq> []"
  define d where "d = dropWhile sp s"
  define r where "r = dropWhile sp (rev d)"
  have t: "trimmed sp s = rev r" by (simp add: trimmed_def d_def r_def)
  with ne have rne: "r \<noteq> []" by simp
  then have "\<not> sp (hd r)" unfolding r_def by (rule hd_dropWhile)
  then have l: "\<not> sp (last (rev r))" using rne by (simp add: last_rev)
  have pre: "rev r = take (length r) d" by (simp add: r_def take_length_dropWhile_rev)
  have dne: "d \<noteq> []" using rne r_def by auto
  then have "\<not> sp (hd d)" unfolding d_def by (rule hd_dropWhile)
  moreover have "hd (rev r) = hd d" using pre rne dne by (metis hd_take length_greater_0_conv)
  ultimately show ?thesis using l t by simp
qed

lemma trimmed_idem: "trimmed sp (trimmed sp s) = trimmed sp s"
proof (cases "trimmed sp s = []")
  case True
  have "trimmed sp [] = []" by (simp add: trimmed_def)
  with True show ?thesis by simp
next
  case False
  then have "\<not> sp (hd (trimmed sp s))" by (simp add: trimmed_ends)
  with False have "dropWhile sp (trimmed sp s) = trimmed sp s"
    by (cases "trimmed sp s") auto
  then have "trimmed sp (trimmed sp s) = rev (dropWhile sp (rev (trimmed sp s)))"
    by (simp add: trimmed_def)
  also have "\<dots> = trimmed sp s" by (simp add: trimmed_def dropWhile_idem)
  finally show ?thesis .
qed

section \<open>The structured extractor: its result\<close>

lemma extractKeyMaterial_eq:
  "extractKeyMaterial L xml =
     (case find_str (tolower_w L xml) tag1 0 of
        None \<Rightarrow> Inr []
      | Some p \<Rightarrow>
          (case find_str (tolower_w L xml) tag2 (p + length tag1) of
             None \<Rightarrow> Inr []
           | Some p2 \<Rightarrow>
               Inr (trimmed (iswspace L)
                     (take (p2 - (p + length tag1)) (drop (p + length tag1) xml)))))"
proof (cases "find_str (tolower_w L xml) tag1 0")
  case None
  then show ?thesis by (simp add: extractKeyMaterial_def)
next
  case (Some p)
  then have "occurs_at tag1 (tolower_w L xml) p" by (simp add: find_str_Some)
  then have "p + length tag1 \<le> length xml" by (simp add: occurs_at_def tolower_w_def)
  then show ?thesis
    using Some by (simp add: extractKeyMaterial_def Let_def substr_def trim_w_eq split: option.split)
qed

lemma first_opening:
  assumes "occurs_at tag1 low i"
  obtains p where "find_str low tag1 0 = Some p" "p \<le> i"
proof -
  from assms have "find_str low tag1 0 \<noteq> None" by (auto simp: find_str_None)
  then obtain p where p: "find_str low tag1 0 = Some p" by auto
  then have "\<forall>k. k < p \<longrightarrow> \<not> occurs_at tag1 low k" by (simp add: find_str_Some)
  with assms have "p \<le> i" by (metis not_le)
  with p show ?thesis by (rule that)
qed

lemma occurs_at_app:
  "occurs_at pat (u @ pat @ v) (length u)"
  by (simp add: occurs_at_def)

text \<open>
  Claim C1. Whenever the lowered document holds the opening marker and, at or after
  its end, the closing marker, \<^verbatim>\<open>extractKeyMaterial\<close> returns the part of the original
  document (not of the lowered copy) between the end of the first opening marker,
  at \<open>p\<close>, and the start of the first closing marker at or after that end, at
  \<open>p2\<close>, without its leading and trailing white space. The example of the claim,
  \<^verbatim>\<open><KeyMaterial> secret123 </KeyMaterial>\<close>, is the witness.
\<close>

theorem extractKeyMaterial_between_markers:
  assumes "occurs_at tag1 (tolower_w L xml) i"
    and "occurs_at tag2 (tolower_w L xml) j"
    and "i + length tag1 \<le> j"
  shows "\<exists>p p2.
      occurs_at tag1 (tolower_w L xml) p
      \<and> (\<forall>k<p. \<not> occurs_at tag1 (tolower_w L xml) k)
      \<and> p + length tag1 \<le> p2
      \<and> occurs_at tag2 (tolower_w L xml) p2
      \<and> (\<forall>k. p + length tag1 \<le> k \<and> k < p2 \<longrightarrow> \<not> occurs_at tag2 (tolower_w L xml) k)
      \<and> extractKeyMaterial L xml =
          Inr (trimmed (iswspace L)
                (take (p2 - (p + length tag1)) (drop (p + length tag1) xml)))"
proof -
  let ?low = "tolower_w L xml"
  from assms(1) obtain p where p: "find_str ?low tag1 0 = Some p" and pi: "p \<le> i"
    by (rule first_opening)
  from pi assms(3) have "p + length tag1 \<le> j" by simp
  with assms(2) have "find_str ?low tag2 (p + length tag1) \<noteq> None"
    by (auto simp: find_str_None)
  then obtain p2 where p2: "find_str ?low tag2 (p + length tag1) = Some p2" by auto
  have "extractKeyMaterial L xml =
      Inr (trimmed (iswspace L) (take (p2 - (p + length tag1)) (drop (p + length tag1) xml)))"
    using p p2 by (simp add: extractKeyMaterial_eq)
  moreover from p have "occurs_at tag1 ?low p \<and> (\<forall>k<p. \<not> occurs_at tag1 ?low k)"
    by (simp add: find_str_Some)
  moreover from p2 have "p + length tag1 \<le> p2 \<and> occurs_at tag2 ?low p2
      \<and> (\<forall>k. p + length tag1 \<le> k \<and> k < p2 \<longrightarrow> \<not> occurs_at tag2 ?low k)"
    by (simp add: find_str_Some)
  ultimately show ?thesis by blast
qed

theorem extractKeyMaterial_between_markers_witness:
  "occurs_at tag1 (tolower_w ascii_clib (wide ''<KeyMaterial> secret123 </KeyMaterial>'')) 0
   \<and> occurs_at tag2 (tolower_w ascii_clib (wide ''<KeyMaterial> secret123 </KeyMaterial>'')) 24
   \<and> extractKeyMaterial ascii_clib (wide ''<KeyMaterial> secret123 </KeyMaterial>'')
       = Inr (wide ''secret123'')"
proof -
  define doc where "doc = wide ''<KeyMaterial> secret123 </KeyMaterial>''"
  define low where "low = tolower_w ascii_clib doc"
  have n: "length tag1 = 13" by code_simp
  have h1: "occurs_at tag1 (tolower_w ascii_clib doc) 0" unfolding doc_def by code_simp
  have h2: "occurs_at tag2 (tolower_w ascii_clib doc) 24" unfolding doc_def by code_simp
  have h3: "0 + length tag1 \<le> 24" by (simp add: n)
  have "find_str (tolower_w ascii_clib doc) tag2 13 = Some 24" unfolding doc_def by code_simp
  then have before: "\<forall>k. 13 \<le> k \<and> k < 24 \<longrightarrow> \<not> occurs_at tag2 low k"
    by (simp add: find_str_Some low_def)
  from extractKeyMaterial_between_markers [OF h1 h2 h3]
  obtain p p2 where p: "\<forall>k<p. \<not> occurs_at tag1 low k"
    and p2: "p + length tag1 \<le> p2" "occurs_at tag2 low p2"
      "\<forall>k. p + length tag1 \<le> k \<and> k < p2 \<longrightarrow> \<not> occurs_at tag2 low k"
    and r: "extractKeyMaterial ascii_clib doc =
      Inr (trimmed (iswspace ascii_clib) (take (p2 - (p + length tag1)) (drop (p + length tag1) doc)))"
    unfolding low_def by blast
  from p h1 have p0: "p = 0" unfolding low_def by (metis gr0I)
  from p2(3) h2 have "\<not> 24 < p2" unfolding low_def p0 n by (metis add_0 h3 n not_less)
  moreover from before p2(1,2) have "\<not> p2 < 24" unfolding p0 n by auto
  ultimately have p24: "p2 = 24" by simp
  have "trimmed (iswspace ascii_clib) (take (24 - (0 + 13)) (drop (0 + 13) doc)) = wide ''secret123''"
    unfolding doc_def by code_simp
  with r have "extractKeyMaterial ascii_clib doc = Inr (wide ''secret123'')"
    by (simp add: p0 p24 n)
  with h1 h2 show ?thesis by (simp add: doc_def)
qed

text \<open>
  Claim C5. When the lowered document holds no opening marker, or holds no closing
  marker at or after the end of its first opening marker (so also when its only
  closing marker stands before the opening marker), \<^verbatim>\<open>extractKeyMaterial\<close> returns
  the empty string, its "not found", and raises nothing: the result is an \<open>Inr\<close>.
\<close>

theorem extractKeyMaterial_not_found:
  assumes "(\<forall>i. \<not> occurs_at tag1 (tolower_w L xml) i)
     \<or> (\<exists>p. occurs_at tag1 (tolower_w L xml) p
          \<and> (\<forall>k<p. \<not> occurs_at tag1 (tolower_w L xml) k)
          \<and> (\<forall>j. p + length tag1 \<le> j \<longrightarrow> \<not> occurs_at tag2 (tolower_w L xml) j))"
  shows "extractKeyMaterial L xml = Inr []"
  using assms
proof
  assume "\<forall>i. \<not> occurs_at tag1 (tolower_w L xml) i"
  then have "find_str (tolower_w L xml) tag1 0 = None" by (simp add: find_str_None)
  then show ?thesis by (simp add: extractKeyMaterial_eq)
next
  assume "\<exists>p. occurs_at tag1 (tolower_w L xml) p
          \<and> (\<forall>k<p. \<not> occurs_at tag1 (tolower_w L xml) k)
          \<and> (\<forall>j. p + length tag1 \<le> j \<longrightarrow> \<not> occurs_at tag2 (tolower_w L xml) j)"
  then obtain p where p: "occurs_at tag1 (tolower_w L xml) p"
     "\<forall>k<p. \<not> occurs_at tag1 (tolower_w L xml) k"
     "\<forall>j. p + length tag1 \<le> j \<longrightarrow> \<not> occurs_at tag2 (tolower_w L xml) j"
    by blast
  from p(1,2) have "find_str (tolower_w L xml) tag1 0 = Some p" by (simp add: find_str_Some)
  moreover from p(3) have "find_str (tolower_w L xml) tag2 (p + length tag1) = None"
    by (simp add: find_str_None)
  ultimately show ?thesis by (simp add: extractKeyMaterial_eq)
qed

theorem extractKeyMaterial_not_found_witness:
  "extractKeyMaterial ascii_clib (wide ''<other>x</other>'') = Inr []
   \<and> extractKeyMaterial ascii_clib (wide ''</keyMaterial><keyMaterial>'') = Inr []"
proof
  have "find_str (tolower_w ascii_clib (wide ''<other>x</other>'')) tag1 0 = None"
    by code_simp
  then have "\<forall>i. \<not> occurs_at tag1 (tolower_w ascii_clib (wide ''<other>x</other>'')) i"
    by (simp add: find_str_None)
  then show "extractKeyMaterial ascii_clib (wide ''<other>x</other>'') = Inr []"
    by (simp add: extractKeyMaterial_not_found)
next
  define low where "low = tolower_w ascii_clib (wide ''</keyMaterial><keyMaterial>'')"
  have n: "length tag1 = 13" by code_simp
  have "find_str low tag1 0 = Some 14" unfolding low_def by code_simp
  then have a: "occurs_at tag1 low 14 \<and> (\<forall>k<14. \<not> occurs_at tag1 low k)"
    by (simp add: find_str_Some)
  have "find_str low tag2 27 = None" unfolding low_def by code_simp
  then have "\<forall>j. 14 + length tag1 \<le> j \<longrightarrow> \<not> occurs_at tag2 low j"
    by (simp add: find_str_None n)
  with a have "\<exists>p. occurs_at tag1 low p \<and> (\<forall>k<p. \<not> occurs_at tag1 low k)
      \<and> (\<forall>j. p + length tag1 \<le> j \<longrightarrow> \<not> occurs_at tag2 low j)"
    by blast
  then show "extractKeyMaterial ascii_clib (wide ''</keyMaterial><keyMaterial>'') = Inr []"
    unfolding low_def by (simp add: extractKeyMaterial_not_found)
qed

text \<open>
  Claim C10. In a document with two pairs of markers, where the first opening marker
  of the document is \<open>o1\<close> and the first closing marker after it is \<open>c1\<close>,
  \<^verbatim>\<open>extractKeyMaterial\<close> returns what stands between \<open>o1\<close> and \<open>c1\<close>, trimmed:
  the later pair \<open>o2\<close>, \<open>c2\<close> and its content \<open>b2\<close> have no part in the result.
\<close>

theorem extractKeyMaterial_first_pair:
  assumes xml: "xml = pre @ o1 @ b1 @ c1 @ mid @ o2 @ b2 @ c2 @ post"
    and o1: "tolower_w L o1 = tag1" and c1: "tolower_w L c1 = tag2"
    and o2: "tolower_w L o2 = tag1" and c2: "tolower_w L c2 = tag2"
    and first_open: "\<forall>k<length pre. \<not> occurs_at tag1 (tolower_w L xml) k"
    and first_close: "\<forall>k. length pre + length o1 \<le> k \<and> k < length pre + length o1 + length b1
          \<longrightarrow> \<not> occurs_at tag2 (tolower_w L xml) k"
  shows "extractKeyMaterial L xml = Inr (trimmed (iswspace L) b1)"
proof -
  let ?low = "tolower_w L xml"
  have lo: "length o1 = length tag1" using o1 by (metis length_map tolower_w_def)
  have low: "?low = tolower_w L pre @ tag1 @ tolower_w L b1 @ tag2
      @ tolower_w L (mid @ o2 @ b2 @ c2 @ post)"
    using o1 c1 by (simp add: xml tolower_w_def)
  have "occurs_at tag1 ?low (length (tolower_w L pre))"
    unfolding low by (rule occurs_at_app)
  then have "occurs_at tag1 ?low (length pre)" by (simp add: tolower_w_def)
  with first_open have p: "find_str ?low tag1 0 = Some (length pre)"
    by (simp add: find_str_Some)
  have "?low = (tolower_w L pre @ tag1 @ tolower_w L b1) @ tag2
      @ tolower_w L (mid @ o2 @ b2 @ c2 @ post)"
    by (simp add: low)
  then have "occurs_at tag2 ?low (length (tolower_w L pre @ tag1 @ tolower_w L b1))"
    by (metis occurs_at_app)
  then have "occurs_at tag2 ?low (length pre + length tag1 + length b1)"
    by (simp add: tolower_w_def add.assoc)
  with first_close lo
  have p2: "find_str ?low tag2 (length pre + length tag1) = Some (length pre + length tag1 + length b1)"
    by (simp add: find_str_Some)
  have "take (length b1) (drop (length pre + length tag1) xml) = b1"
    using lo by (simp add: xml)
  with p p2 show ?thesis by (simp add: extractKeyMaterial_eq)
qed

theorem extractKeyMaterial_first_pair_witness:
  "extractKeyMaterial ascii_clib
     (wide ''<KeyMaterial>first</KeyMaterial><keymaterial>second</keymaterial>'')
   = Inr (wide ''first'')"
proof -
  define xml where
    "xml = wide ''<KeyMaterial>first</KeyMaterial><keymaterial>second</keymaterial>''"
  have x: "xml = [] @ wide ''<KeyMaterial>'' @ wide ''first'' @ wide ''</KeyMaterial>'' @ []
      @ wide ''<keymaterial>'' @ wide ''second'' @ wide ''</keymaterial>'' @ []"
    by (simp add: xml_def wide_def)
  have o1: "tolower_w ascii_clib (wide ''<KeyMaterial>'') = tag1" by code_simp
  have c1: "tolower_w ascii_clib (wide ''</KeyMaterial>'') = tag2" by code_simp
  have o2: "tolower_w ascii_clib (wide ''<keymaterial>'') = tag1" by code_simp
  have c2: "tolower_w ascii_clib (wide ''</keymaterial>'') = tag2" by code_simp
  have fo: "\<forall>k<length ([]::wstring). \<not> occurs_at tag1 (tolower_w ascii_clib xml) k" by simp
  have "find_str (tolower_w ascii_clib xml) tag2 13 = Some 18" unfolding xml_def by code_simp
  then have "\<forall>k. 13 \<le> k \<and> k < 18 \<longrightarrow> \<not> occurs_at tag2 (tolower_w ascii_clib xml) k"
    by (simp add: find_str_Some)
  moreover have "length (wide ''<KeyMaterial>'') = 13" "length (wide ''first'') = 5"
    by (simp_all add: wide_def)
  ultimately have fc: "\<forall>k. length ([]::wstring) + length (wide ''<KeyMaterial>'') \<le> k
      \<and> k < length ([]::wstring) + length (wide ''<KeyMaterial>'') + length (wide ''first'')
      \<longrightarrow> \<not> occurs_at tag2 (tolower_w ascii_clib xml) k"
    by simp
  have "extractKeyMaterial ascii_clib xml = Inr (trimmed (iswspace ascii_clib) (wide ''first''))"
    by (rule extractKeyMaterial_first_pair [OF x o1 c1 o2 c2 fo fc])
  also have "trimmed (iswspace ascii_clib) (wide ''first'') = wide ''first''" by code_simp
  finally show ?thesis by (simp add: xml_def)
qed

section \<open>The fallback extractor: its loop\<close>

lemma parse_value_eq:
  assumes "col + 1 \<le> length line"
  shows "parse_value L line col found =
    Inr (if MultiByteToWideChar L (trimmed (isspace L) (drop (col + 1) line)) = [] then found
         else trimmed (iswspace L)
                (MultiByteToWideChar L (trimmed (isspace L) (drop (col + 1) line))))"
proof -
  define v where "v = drop (col + 1) line"
  have sr: "substr_rest line (col + 1) = Inr v"
    using assms by (simp add: substr_rest_def v_def)
  have tv: "substr v (skip_front (isspace L) v 0)
      (skip_back (isspace L) v (skip_front (isspace L) v 0) (length v)
        - skip_front (isspace L) v 0) = Inr (trimmed (isspace L) v)"
    by (rule trim_loops)
  have "parse_value L line col found =
    Inr (if MultiByteToWideChar L (trimmed (isspace L) v) = [] then found
         else trimmed (iswspace L) (MultiByteToWideChar L (trimmed (isspace L) v)))"
    unfolding parse_value_def sr by (simp add: Let_def tv trim_w_eq)
  then show ?thesis by (simp only: v_def)
qed

lemma line_step_eq:
  "line_step L line found =
     Inr (case value_colon L line of
            None \<Rightarrow> (False, found)
          | Some col \<Rightarrow>
              (True,
               if MultiByteToWideChar L (trimmed (isspace L) (drop (col + 1) line)) = []
               then found
               else trimmed (iswspace L)
                      (MultiByteToWideChar L (trimmed (isspace L) (drop (col + 1) line)))))"
  by (simp add: line_step_def value_colon_def parse_value_eq split: option.split)

lemma line_step_value:
  "value_colon L line = Some col \<Longrightarrow>
   line_step L line [] = Inr (True, line_value L (drop (col + 1) line))"
  by (simp add: line_step_eq line_value_def Let_def)

lemma line_step_skip:
  "value_colon L line = None \<Longrightarrow> line_step L line found = Inr (False, found)"
  by (simp add: line_step_eq)

lemma lines_of_Cons:
  "lines_of pipe = x # xs \<longleftrightarrow>
     (\<exists>buf rest. fgets 512 pipe = Some (buf, rest) \<and> x = c_str buf \<and> xs = lines_of rest)"
  by (subst lines_of.simps) (auto split: option.split)

lemma lines_of_Nil: "lines_of pipe = [] \<longleftrightarrow> fgets 512 pipe = None"
  by (subst lines_of.simps) (auto split: option.split)

text \<open>
  Where the text is made of lines of at most 510 characters before their newline,
  without a NUL, the lines of the loop are the lines of the text, each with its
  newline. A longer line is read in pieces of 511 characters, and a line with a NUL
  is cut there.
\<close>

lemma read_chars_line:
  "0x0A \<notin> set e \<Longrightarrow> length e < k \<Longrightarrow> read_chars k (e @ 0x0A # rest) = e @ [0x0A]"
proof (induction e arbitrary: k)
  case Nil
  then show ?case by (cases k) simp_all
next
  case (Cons c e)
  then show ?case by (cases k) auto
qed

lemma fgets_line:
  assumes "0x0A \<notin> set e" and "length e \<le> 510"
  shows "fgets 512 (e @ 0x0A # rest) = Some (e @ [0x0A], rest)"
proof -
  from assms have "read_chars (512 - 1) (e @ 0x0A # rest) = e @ [0x0A]"
    by (intro read_chars_line) simp_all
  then show ?thesis by (simp add: fgets_def Let_def)
qed

lemma lines_of_line:
  assumes "0x0A \<notin> set e" and "0 \<notin> set e" and "length e \<le> 510"
  shows "lines_of (e @ 0x0A # rest) = (e @ [0x0A]) # lines_of rest"
proof -
  from assms(2) have "c_str (e @ [0x0A]) = e @ [0x0A]"
    by (auto simp: c_str_def intro: takeWhile_eq_all_conv [THEN iffD2])
  with fgets_line [OF assms(1,3)] show ?thesis by (simp add: lines_of_Cons)
qed

lemma lines_of_short_lines:
  "\<forall>e\<in>set es. 0x0A \<notin> set e \<and> 0 \<notin> set e \<and> length e \<le> 510 \<Longrightarrow>
   lines_of (concat (map (\<lambda>e. e @ [0x0A]) es) @ rest) = map (\<lambda>e. e @ [0x0A]) es @ lines_of rest"
  by (induction es) (simp_all add: lines_of_line)

lemma netsh_loop_skip:
  "lines_of pipe = pre @ ls \<Longrightarrow> \<forall>x\<in>set pre. value_colon L x = None \<Longrightarrow>
   \<exists>rest. lines_of rest = ls \<and> netsh_loop L pipe found = netsh_loop L rest found"
proof (induction pre arbitrary: pipe)
  case Nil
  then show ?case by auto
next
  case (Cons x pre)
  from Cons.prems(1) obtain buf r where f: "fgets 512 pipe = Some (buf, r)"
    and x: "x = c_str buf" and r: "lines_of r = pre @ ls"
    by (auto simp: lines_of_Cons)
  from Cons.prems(2) have "value_colon L x = None" by simp
  then have "netsh_loop L pipe found = netsh_loop L r found"
    using f x by (subst netsh_loop.simps) (simp add: line_step_skip)
  moreover from Cons.IH [OF r] Cons.prems(2)
  obtain rest where "lines_of rest = ls" "netsh_loop L r found = netsh_loop L rest found"
    by auto
  ultimately show ?case by auto
qed

lemma netsh_loop_stop:
  assumes "lines_of pipe = l # post" and "value_colon L l = Some col"
  shows "netsh_loop L pipe [] = Inr (line_value L (drop (col + 1) l))"
proof -
  from assms(1) obtain buf r where "fgets 512 pipe = Some (buf, r)" "l = c_str buf"
    by (auto simp: lines_of_Cons)
  then show ?thesis
    using assms(2) by (subst netsh_loop.simps) (simp add: line_step_value)
qed

lemma netsh_loop_first_value:
  assumes "lines_of pipe = pre @ l # post"
    and "\<forall>x\<in>set pre. value_colon L x = None"
    and "value_colon L l = Some col"
  shows "netsh_loop L pipe [] = Inr (line_value L (drop (col + 1) l))"
proof -
  from netsh_loop_skip [OF assms(1,2)]
  obtain rest where "lines_of rest = l # post" "netsh_loop L pipe [] = netsh_loop L rest []"
    by blast
  with assms(3) show ?thesis by (simp add: netsh_loop_stop)
qed

lemma netsh_loop_no_value:
  assumes "\<forall>x\<in>set (lines_of pipe). value_colon L x = None"
  shows "netsh_loop L pipe found = Inr found"
proof -
  have "lines_of pipe = lines_of pipe @ []" by simp
  from netsh_loop_skip [OF this assms]
  obtain rest where "lines_of rest = []" "netsh_loop L pipe found = netsh_loop L rest found"
    by blast
  moreover from this(1) have "netsh_loop L rest found = Inr found"
    by (subst netsh_loop.simps) (simp add: lines_of_Nil)
  ultimately show ?thesis by simp
qed

lemma netsh_loop_cases:
  "netsh_loop L pipe [] = Inr [] \<or> (\<exists>w. netsh_loop L pipe [] = Inr (trimmed (iswspace L) w))"
proof (cases "\<forall>x\<in>set (lines_of pipe). value_colon L x = None")
  case True
  then show ?thesis by (simp add: netsh_loop_no_value)
next
  case False
  then have "\<exists>x\<in>set (lines_of pipe). value_colon L x \<noteq> None" by simp
  from split_list_first_prop [OF this]
  obtain pre l post where s: "lines_of pipe = pre @ l # post"
    and pre: "\<forall>x\<in>set pre. value_colon L x = None" and l: "value_colon L l \<noteq> None"
    by auto
  from l obtain col where "value_colon L l = Some col" by auto
  with s pre have "netsh_loop L pipe [] = Inr (line_value L (drop (col + 1) l))"
    by (rule netsh_loop_first_value)
  then show ?thesis by (auto simp: line_value_def Let_def)
qed

section \<open>The fallback extractor: its result\<close>



lemma label_pos_primary:
  assumes "occurs_at key_content (map (tolower L) line) p"
    and "\<forall>k<p. \<not> occurs_at key_content (map (tolower L) line) k"
  shows "label_pos L line = Some p"
proof -
  from assms have "find_str (map (tolower L) line) key_content 0 = Some p"
    by (simp add: find_str_Some)
  then show ?thesis by (simp add: label_pos_def)
qed

lemma label_pos_secondary:
  assumes "\<forall>k. \<not> occurs_at key_content (map (tolower L) line) k"
    and "occurs_at key_content_ja (map (tolower L) line) q"
    and "\<forall>k<q. \<not> occurs_at key_content_ja (map (tolower L) line) k"
  shows "label_pos L line = Some q"
proof -
  from assms(1) have "find_str (map (tolower L) line) key_content 0 = None"
    by (simp add: find_str_None)
  moreover from assms(2,3) have "find_str (map (tolower L) line) key_content_ja 0 = Some q"
    by (simp add: find_str_Some)
  ultimately show ?thesis by (simp add: label_pos_def)
qed


lemma value_colon_Some:
  "label_pos L l = Some pos \<Longrightarrow> find_str l [colon] pos = Some col \<Longrightarrow> col + 1 < length l \<Longrightarrow>
   value_colon L l = Some col"
  by (simp add: value_colon_def)










text \<open>
  Claim C9. When the lowered line holds the primary label, first at \<open>p\<close>, then
  \<^verbatim>\<open>pos\<close> is \<open>p\<close> and the colon is searched from \<open>p\<close>: the value is what follows
  the first colon at or after \<open>p\<close>, wherever the second label stands in the line
  (the statement does not mention it; in the witness it stands first, with a colon
  of its own). The position of the second label is used when the primary label
  does not occur in the line.
\<close>

theorem primary_label_position_used:
  "(occurs_at key_content (map (tolower L) line) p
      \<and> (\<forall>k<p. \<not> occurs_at key_content (map (tolower L) line) k)
      \<and> p \<le> col \<and> occurs_at [colon] line col
      \<and> (\<forall>k. p \<le> k \<and> k < col \<longrightarrow> \<not> occurs_at [colon] line k)
      \<and> col + 1 < length line
     \<longrightarrow> label_pos L line = Some p
       \<and> line_step L line [] = Inr (True, line_value L (drop (col + 1) line)))
   \<and> ((\<forall>k. \<not> occurs_at key_content (map (tolower L) line) k)
      \<and> occurs_at key_content_ja (map (tolower L) line) q
      \<and> (\<forall>k<q. \<not> occurs_at key_content_ja (map (tolower L) line) k)
      \<and> q \<le> col' \<and> occurs_at [colon] line col'
      \<and> (\<forall>k. q \<le> k \<and> k < col' \<longrightarrow> \<not> occurs_at [colon] line k)
      \<and> col' + 1 < length line
     \<longrightarrow> label_pos L line = Some q
       \<and> line_step L line [] = Inr (True, line_value L (drop (col' + 1) line)))"
proof (intro conjI impI)
  assume a: "occurs_at key_content (map (tolower L) line) p
      \<and> (\<forall>k<p. \<not> occurs_at key_content (map (tolower L) line) k)
      \<and> p \<le> col \<and> occurs_at [colon] line col
      \<and> (\<forall>k. p \<le> k \<and> k < col \<longrightarrow> \<not> occurs_at [colon] line k)
      \<and> col + 1 < length line"
  then show lp: "label_pos L line = Some p" by (simp add: label_pos_primary)
  from a have "find_str line [colon] p = Some col" by (simp add: find_str_Some)
  with lp a have "value_colon L line = Some col" by (simp add: value_colon_Some)
  then show "line_step L line [] = Inr (True, line_value L (drop (col + 1) line))"
    by (rule line_step_value)
next
  assume a: "(\<forall>k. \<not> occurs_at key_content (map (tolower L) line) k)
      \<and> occurs_at key_content_ja (map (tolower L) line) q
      \<and> (\<forall>k<q. \<not> occurs_at key_content_ja (map (tolower L) line) k)
      \<and> q \<le> col' \<and> occurs_at [colon] line col'
      \<and> (\<forall>k. q \<le> k \<and> k < col' \<longrightarrow> \<not> occurs_at [colon] line k)
      \<and> col' + 1 < length line"
  then show lp: "label_pos L line = Some q" by (simp add: label_pos_secondary)
  from a have "find_str line [colon] q = Some col'" by (simp add: find_str_Some)
  with lp a have "value_colon L line = Some col'" by (simp add: value_colon_Some)
  then show "line_step L line [] = Inr (True, line_value L (drop (col' + 1) line))"
    by (rule line_step_value)
qed

theorem primary_label_position_used_witness:
  "line_step ascii_clib (key_content_ja @ narrow '': A key content: B\<newline>'') []
     = Inr (True, wide ''B'')
   \<and> line_step ascii_clib (key_content_ja @ narrow '': A\<newline>'') []
     = Inr (True, wide ''A'')"
proof
  define line where "line = key_content_ja @ narrow '': A key content: B\<newline>''"
  define low where "low = map (tolower ascii_clib) line"
  have "find_str low key_content 0 = Some 26" unfolding low_def line_def by code_simp
  then have a: "occurs_at key_content low 26 \<and> (\<forall>k<26. \<not> occurs_at key_content low k)"
    by (simp add: find_str_Some)
  have "find_str line [colon] 26 = Some 37" unfolding line_def by code_simp
  then have b: "26 \<le> (37::nat) \<and> occurs_at [colon] line 37
      \<and> (\<forall>k. 26 \<le> k \<and> k < 37 \<longrightarrow> \<not> occurs_at [colon] line k)"
    by (simp add: find_str_Some)
  have c: "37 + 1 < length line" unfolding line_def by code_simp
  have "line_value ascii_clib (drop (37 + 1) line) = wide ''B''" unfolding line_def by code_simp
  with a b c have "line_step ascii_clib line [] = Inr (True, wide ''B'')"
    using primary_label_position_used
      [where L = ascii_clib and line = line and p = 26 and col = 37]
    unfolding low_def by simp
  then show "line_step ascii_clib (key_content_ja @ narrow '': A key content: B\<newline>'') []
     = Inr (True, wide ''B'')"
    by (simp add: line_def)
next
  define line where "line = key_content_ja @ narrow '': A\<newline>''"
  define low where "low = map (tolower ascii_clib) line"
  have "find_str low key_content 0 = None" unfolding low_def line_def by code_simp
  then have n: "\<forall>k. \<not> occurs_at key_content low k" by (simp add: find_str_None)
  have "find_str low key_content_ja 0 = Some 0" unfolding low_def line_def by code_simp
  then have a: "occurs_at key_content_ja low 0 \<and> (\<forall>k<0. \<not> occurs_at key_content_ja low k)"
    by (simp add: find_str_Some)
  have "find_str line [colon] 0 = Some 22" unfolding line_def by code_simp
  then have b: "0 \<le> (22::nat) \<and> occurs_at [colon] line 22
      \<and> (\<forall>k. 0 \<le> k \<and> k < 22 \<longrightarrow> \<not> occurs_at [colon] line k)"
    by (simp add: find_str_Some)
  have c: "22 + 1 < length line" unfolding line_def by code_simp
  have "line_value ascii_clib (drop (22 + 1) line) = wide ''A''" unfolding line_def by code_simp
  with n a b c have "line_step ascii_clib line [] = Inr (True, wide ''A'')"
    using primary_label_position_used
      [where L = ascii_clib and line = line and q = 0 and col' = 22]
    unfolding low_def by simp
  then show "line_step ascii_clib (key_content_ja @ narrow '': A\<newline>'') []
     = Inr (True, wide ''A'')"
    by (simp add: line_def)
qed

section \<open>Both extractors, and the two of them in a row\<close>

lemma trimmed_Nil: "trimmed sp [] = []"
  by (simp add: trimmed_def)

lemma extractKeyMaterial_trimmed:
  "\<exists>w. extractKeyMaterial L xml = Inr (trimmed (iswspace L) w)"
proof (cases "extractKeyMaterial L xml = Inr []")
  case True
  then have "extractKeyMaterial L xml = Inr (trimmed (iswspace L) [])" by (simp add: trimmed_Nil)
  then show ?thesis ..
next
  case False
  then show ?thesis by (auto simp: extractKeyMaterial_eq split: option.splits)
qed

lemma try_netsh_parse_trimmed:
  "\<exists>w. try_netsh_parse L pipe = Inr (trimmed (iswspace L) w)"
proof (cases pipe)
  case None
  then have "try_netsh_parse L pipe = Inr (trimmed (iswspace L) [])"
    by (simp add: try_netsh_parse_def trimmed_Nil)
  then show ?thesis ..
next
  case (Some out)
  from netsh_loop_cases [of L out] show ?thesis
  proof
    assume "netsh_loop L out [] = Inr []"
    with Some have "try_netsh_parse L pipe = Inr (trimmed (iswspace L) [])"
      by (simp add: try_netsh_parse_def trimmed_Nil)
    then show ?thesis ..
  next
    assume "\<exists>w. netsh_loop L out [] = Inr (trimmed (iswspace L) w)"
    with Some show ?thesis by (simp add: try_netsh_parse_def)
  qed
qed

lemma trimmed_or_nothing:
  assumes "t = trimmed (iswspace L) w"
  shows "(t = [] \<or> (t \<noteq> [] \<and> \<not> iswspace L (hd t) \<and> \<not> iswspace L (last t)))
     \<and> trim_w L t = Inr t"
  using assms by (auto simp: trim_w_eq trimmed_idem dest: trimmed_ends)

text \<open>
  Claim C6. Each extractor returns a string (an \<open>Inr\<close>: nothing is raised), and the
  string is either empty, the "nothing" of the program, or not empty with a first
  and a last character that \<^verbatim>\<open>iswspace\<close> rejects. Trimming it again gives it back.
\<close>

theorem extractors_trimmed_or_nothing:
  "(\<exists>t. extractKeyMaterial L xml = Inr t
       \<and> (t = [] \<or> (t \<noteq> [] \<and> \<not> iswspace L (hd t) \<and> \<not> iswspace L (last t)))
       \<and> trim_w L t = Inr t)
   \<and> (\<exists>t. try_netsh_parse L pipe = Inr t
       \<and> (t = [] \<or> (t \<noteq> [] \<and> \<not> iswspace L (hd t) \<and> \<not> iswspace L (last t)))
       \<and> trim_w L t = Inr t)"
proof
  from extractKeyMaterial_trimmed [of L xml]
  obtain w where "extractKeyMaterial L xml = Inr (trimmed (iswspace L) w)" ..
  then show "\<exists>t. extractKeyMaterial L xml = Inr t
       \<and> (t = [] \<or> (t \<noteq> [] \<and> \<not> iswspace L (hd t) \<and> \<not> iswspace L (last t)))
       \<and> trim_w L t = Inr t"
    using trimmed_or_nothing [OF refl, of L w] by blast
next
  from try_netsh_parse_trimmed [of L pipe]
  obtain w where "try_netsh_parse L pipe = Inr (trimmed (iswspace L) w)" ..
  then show "\<exists>t. try_netsh_parse L pipe = Inr t
       \<and> (t = [] \<or> (t \<noteq> [] \<and> \<not> iswspace L (hd t) \<and> \<not> iswspace L (last t)))
       \<and> trim_w L t = Inr t"
    using trimmed_or_nothing [OF refl, of L w] by blast
qed

theorem extractors_trimmed_or_nothing_witness:
  "(\<exists>t. extractKeyMaterial ascii_clib (wide ''<keyMaterial>  pass word  </keyMaterial>'') = Inr t
       \<and> t = wide ''pass word''
       \<and> \<not> iswspace ascii_clib (hd t) \<and> \<not> iswspace ascii_clib (last t)
       \<and> trim_w ascii_clib t = Inr t)
   \<and> (\<exists>t. try_netsh_parse ascii_clib (Some (narrow ''Key Content :   pass word  \<newline>'')) = Inr t
       \<and> t = wide ''pass word''
       \<and> \<not> iswspace ascii_clib (hd t) \<and> \<not> iswspace ascii_clib (last t)
       \<and> trim_w ascii_clib t = Inr t)"
proof -
  define xml where "xml = wide ''<keyMaterial>  pass word  </keyMaterial>''"
  define pipe where "pipe = Some (narrow ''Key Content :   pass word  \<newline>'')"
  have x: "extractKeyMaterial ascii_clib xml = Inr (wide ''pass word'')"
    unfolding xml_def by code_simp
  have p: "try_netsh_parse ascii_clib pipe = Inr (wide ''pass word'')"
    unfolding pipe_def by code_simp
  have ne: "wide ''pass word'' \<noteq> []" by code_simp
  from extractors_trimmed_or_nothing [of ascii_clib xml pipe] x p ne
  show ?thesis unfolding xml_def pipe_def by auto
qed

lemma profile_password_structured:
  assumes "descriptor = Some xml" and "extractKeyMaterial L xml = Inr k" and "k \<noteq> []"
  shows "profile_password L descriptor pipe = Inr (k, [ExtractKeyMaterial])"
  using assms by (simp add: profile_password_def)

lemma profile_password_fallback:
  assumes "descriptor = None \<or> (\<exists>xml. descriptor = Some xml \<and> extractKeyMaterial L xml = Inr [])"
    and "try_netsh_parse L pipe = Inr k"
  shows "\<exists>calls. profile_password L descriptor pipe = Inr (k, calls @ [TryNetshParse])
      \<and> TryNetshParse \<notin> set calls \<and> count_list calls ExtractKeyMaterial \<le> 1"
  using assms by (auto simp: profile_password_def)

text \<open>
  Claim C4. For one profile: when the descriptor is there and \<^verbatim>\<open>extractKeyMaterial\<close>
  gives a non-empty string, that string is printed and \<^verbatim>\<open>try_netsh_parse\<close> is not
  called; otherwise, when \<^verbatim>\<open>try_netsh_parse\<close> gives a non-empty string, that one is
  printed; otherwise the line "not available" is. In every case the body returns,
  and each extractor is called at most once.
\<close>

theorem profile_report_two_tier:
  "(\<forall>xml k. descriptor = Some xml \<and> extractKeyMaterial L xml = Inr k \<and> k \<noteq> []
      \<longrightarrow> profile_report L descriptor pipe = Inr (Pass k, [ExtractKeyMaterial]))
   \<and> (\<forall>k. (descriptor = None
            \<or> (\<exists>xml. descriptor = Some xml \<and> extractKeyMaterial L xml = Inr []))
         \<and> try_netsh_parse L pipe = Inr k \<and> k \<noteq> []
      \<longrightarrow> (\<exists>calls. profile_report L descriptor pipe = Inr (Pass k, calls)))
   \<and> ((descriptor = None
            \<or> (\<exists>xml. descriptor = Some xml \<and> extractKeyMaterial L xml = Inr []))
         \<and> try_netsh_parse L pipe = Inr []
      \<longrightarrow> (\<exists>calls. profile_report L descriptor pipe = Inr (NotAvailable, calls)))
   \<and> (\<exists>line calls. profile_report L descriptor pipe = Inr (line, calls)
         \<and> count_list calls ExtractKeyMaterial \<le> 1
         \<and> count_list calls TryNetshParse \<le> 1)"
proof (intro conjI allI impI)
  fix xml k
  assume "descriptor = Some xml \<and> extractKeyMaterial L xml = Inr k \<and> k \<noteq> []"
  then show "profile_report L descriptor pipe = Inr (Pass k, [ExtractKeyMaterial])"
    by (simp add: profile_report_def profile_password_structured)
next
  fix k
  assume a: "(descriptor = None
            \<or> (\<exists>xml. descriptor = Some xml \<and> extractKeyMaterial L xml = Inr []))
         \<and> try_netsh_parse L pipe = Inr k \<and> k \<noteq> []"
  with profile_password_fallback [of descriptor L pipe k]
  obtain calls where "profile_password L descriptor pipe = Inr (k, calls @ [TryNetshParse])"
    by blast
  with a show "\<exists>calls. profile_report L descriptor pipe = Inr (Pass k, calls)"
    by (simp add: profile_report_def)
next
  assume a: "(descriptor = None
            \<or> (\<exists>xml. descriptor = Some xml \<and> extractKeyMaterial L xml = Inr []))
         \<and> try_netsh_parse L pipe = Inr []"
  with profile_password_fallback [of descriptor L pipe "[]"]
  obtain calls where "profile_password L descriptor pipe = Inr ([], calls @ [TryNetshParse])"
    by blast
  then show "\<exists>calls. profile_report L descriptor pipe = Inr (NotAvailable, calls)"
    by (simp add: profile_report_def)
next
  obtain t where t: "try_netsh_parse L pipe = Inr t"
    using try_netsh_parse_trimmed [of L pipe] by blast
  show "\<exists>line calls. profile_report L descriptor pipe = Inr (line, calls)
         \<and> count_list calls ExtractKeyMaterial \<le> 1
         \<and> count_list calls TryNetshParse \<le> 1"
  proof (cases descriptor)
    case None
    with t show ?thesis by (simp add: profile_report_def profile_password_def)
  next
    case (Some xml)
    obtain k where k: "extractKeyMaterial L xml = Inr k"
      using extractKeyMaterial_trimmed [of L xml] by blast
    with Some t show ?thesis
      by (cases "k = []") (simp_all add: profile_report_def profile_password_def)
  qed
qed

theorem profile_report_two_tier_witness:
  "profile_report ascii_clib (Some (wide ''<keyMaterial>abc</keyMaterial>'')) None
     = Inr (Pass (wide ''abc''), [ExtractKeyMaterial])
   \<and> (\<exists>calls. profile_report ascii_clib (Some (wide ''<other>x</other>''))
         (Some (narrow ''Key Content            : hunter2\<newline>''))
       = Inr (Pass (wide ''hunter2''), calls))
   \<and> (\<exists>calls. profile_report ascii_clib None None = Inr (NotAvailable, calls))"
proof (intro conjI)
  have "extractKeyMaterial ascii_clib (wide ''<keyMaterial>abc</keyMaterial>'') = Inr (wide ''abc'')"
    by code_simp
  moreover have "wide ''abc'' \<noteq> []" by code_simp
  ultimately show "profile_report ascii_clib (Some (wide ''<keyMaterial>abc</keyMaterial>'')) None
     = Inr (Pass (wide ''abc''), [ExtractKeyMaterial])"
    using profile_report_two_tier
      [where descriptor = "Some (wide ''<keyMaterial>abc</keyMaterial>'')"
         and L = ascii_clib and pipe = None]
    by blast
next
  have "extractKeyMaterial ascii_clib (wide ''<other>x</other>'') = Inr []" by code_simp
  moreover have "try_netsh_parse ascii_clib (Some (narrow ''Key Content            : hunter2\<newline>''))
      = Inr (wide ''hunter2'')"
    by code_simp
  moreover have "wide ''hunter2'' \<noteq> []" by code_simp
  ultimately show "\<exists>calls. profile_report ascii_clib (Some (wide ''<other>x</other>''))
         (Some (narrow ''Key Content            : hunter2\<newline>''))
       = Inr (Pass (wide ''hunter2''), calls)"
    using profile_report_two_tier
      [where descriptor = "Some (wide ''<other>x</other>'')" and L = ascii_clib
         and pipe = "Some (narrow ''Key Content            : hunter2\<newline>'')"]
    by blast
next
  have "try_netsh_parse ascii_clib None = Inr []" by code_simp
  then show "\<exists>calls. profile_report ascii_clib None None = Inr (NotAvailable, calls)"
    using profile_report_two_tier [where descriptor = None and L = ascii_clib and pipe = None]
    by blast
qed

section \<open>The input is left as it is\<close>

lemma transform_in_place_eq:
  "r < length h \<Longrightarrow> i \<le> length (h ! r) \<Longrightarrow>
   transform_in_place f h r i = h[r := take i (h ! r) @ map f (drop i (h ! r))]"
proof (induction f h r i rule: transform_in_place.induct)
  case (1 f h r i)
  let ?s = "h ! r"
  show ?case
  proof (cases "i < length ?s")
    case True
    let ?h' = "h[r := ?s[i := f (?s ! i)]]"
    have r': "r < length ?h'" using "1.prems" by simp
    have s': "?h' ! r = ?s[i := f (?s ! i)]" using "1.prems" by simp
    have "transform_in_place f h r i = transform_in_place f ?h' r (Suc i)"
      using True transform_in_place.simps [of f h r i] by simp
    also have "\<dots> = ?h'[r := take (Suc i) (?h' ! r) @ map f (drop (Suc i) (?h' ! r))]"
      using True r' s' by (intro "1.IH") simp_all
    also have "take (Suc i) (?h' ! r) = take i ?s @ [f (?s ! i)]"
      using True s' by (simp add: take_Suc_conv_app_nth)
    also have "drop (Suc i) (?h' ! r) = drop (Suc i) ?s" using s' by simp
    also have "(take i ?s @ [f (?s ! i)]) @ map f (drop (Suc i) ?s) = take i ?s @ map f (drop i ?s)"
      using True by (simp add: Cons_nth_drop_Suc [symmetric])
    finally show ?thesis by simp
  next
    case False
    with "1.prems" have "i = length ?s" by simp
    moreover have "transform_in_place f h r i = h"
      using False transform_in_place.simps [of f h r i] by simp
    ultimately show ?thesis by simp
  qed
qed

lemma tolower_w_store_eq:
  "s < length h \<Longrightarrow> tolower_w_store L h s = (length h, h @ [tolower_w L (h ! s)])"
  by (simp add: tolower_w_store_def new_string_def transform_in_place_eq nth_append
      tolower_w_def)

lemma extractKeyMaterial_store_eq:
  assumes "xml < length h"
  shows "extractKeyMaterial_store L h xml =
    (extractKeyMaterial L (h ! xml), h @ [tolower_w L (h ! xml)])"
  using assms
  by (simp add: extractKeyMaterial_store_def extractKeyMaterial_def tolower_w_store_eq
      nth_append Let_def split: option.split sum.split)

lemma line_step_store_eq:
  assumes "line < length h"
  shows "line_step_store L h line found =
    (line_step L (h ! line) found, h @ [map (tolower L) (h ! line)])"
  using assms
  by (simp add: line_step_store_def line_step_def label_pos_def new_string_def
      transform_in_place_eq nth_append Let_def split: option.split sum.split)

text \<open>
  Claim C7. On the store, a run of \<^verbatim>\<open>extractKeyMaterial\<close> returns what the function
  of the text returns, whatever else the store holds; every object that was there
  before the call, the input among them, holds the same characters after it; and a
  second run, on the store the first one leaves, returns the same result. The same
  holds for the body of the loop of \<^verbatim>\<open>try_netsh_parse\<close> on the line it has read.
\<close>

theorem extractors_leave_input:
  "(xml < length h \<longrightarrow>
      fst (extractKeyMaterial_store L h xml) = extractKeyMaterial L (h ! xml)
      \<and> (\<forall>a<length h. snd (extractKeyMaterial_store L h xml) ! a = h ! a)
      \<and> fst (extractKeyMaterial_store L (snd (extractKeyMaterial_store L h xml)) xml)
          = fst (extractKeyMaterial_store L h xml))
   \<and> (line < length g \<longrightarrow>
      fst (line_step_store L g line found) = line_step L (g ! line) found
      \<and> (\<forall>a<length g. snd (line_step_store L g line found) ! a = g ! a)
      \<and> fst (line_step_store L (snd (line_step_store L g line found)) line found)
          = fst (line_step_store L g line found))"
proof (intro conjI impI)
  assume x: "xml < length h"
  then show "fst (extractKeyMaterial_store L h xml) = extractKeyMaterial L (h ! xml)"
    by (simp add: extractKeyMaterial_store_eq)
  from x show "\<forall>a<length h. snd (extractKeyMaterial_store L h xml) ! a = h ! a"
    by (simp add: extractKeyMaterial_store_eq nth_append)
  from x have "xml < length (h @ [tolower_w L (h ! xml)])" by simp
  then have "fst (extractKeyMaterial_store L (h @ [tolower_w L (h ! xml)]) xml)
      = extractKeyMaterial L ((h @ [tolower_w L (h ! xml)]) ! xml)"
    by (simp only: extractKeyMaterial_store_eq fst_conv)
  with x show "fst (extractKeyMaterial_store L (snd (extractKeyMaterial_store L h xml)) xml)
          = fst (extractKeyMaterial_store L h xml)"
    by (simp add: extractKeyMaterial_store_eq nth_append)
next
  assume x: "line < length g"
  then show "fst (line_step_store L g line found) = line_step L (g ! line) found"
    by (simp add: line_step_store_eq)
  from x show "\<forall>a<length g. snd (line_step_store L g line found) ! a = g ! a"
    by (simp add: line_step_store_eq nth_append)
  from x have "line < length (g @ [map (tolower L) (g ! line)])" by simp
  then have "fst (line_step_store L (g @ [map (tolower L) (g ! line)]) line found)
      = line_step L ((g @ [map (tolower L) (g ! line)]) ! line) found"
    by (simp only: line_step_store_eq fst_conv)
  with x show "fst (line_step_store L (snd (line_step_store L g line found)) line found)
          = fst (line_step_store L g line found)"
    by (simp add: line_step_store_eq nth_append)
qed

theorem extractors_leave_input_witness:
  "fst (extractKeyMaterial_store ascii_clib [wide ''<KeyMaterial> Secret123 </KeyMaterial>''] 0)
     = Inr (wide ''Secret123'')
   \<and> snd (extractKeyMaterial_store ascii_clib [wide ''<KeyMaterial> Secret123 </KeyMaterial>''] 0) ! 0
     = wide ''<KeyMaterial> Secret123 </KeyMaterial>''
   \<and> fst (extractKeyMaterial_store ascii_clib
       (snd (extractKeyMaterial_store ascii_clib
          [wide ''<KeyMaterial> Secret123 </KeyMaterial>''] 0)) 0)
     = Inr (wide ''Secret123'')
   \<and> fst (line_step_store ascii_clib [narrow ''Key Content : Hunter2\<newline>''] 0 [])
     = Inr (True, wide ''Hunter2'')
   \<and> snd (line_step_store ascii_clib [narrow ''Key Content : Hunter2\<newline>''] 0 []) ! 0
     = narrow ''Key Content : Hunter2\<newline>''
   \<and> fst (line_step_store ascii_clib
       (snd (line_step_store ascii_clib [narrow ''Key Content : Hunter2\<newline>''] 0 [])) 0 [])
     = Inr (True, wide ''Hunter2'')"
proof -
  define xml where "xml = wide ''<KeyMaterial> Secret123 </KeyMaterial>''"
  define line where "line = narrow ''Key Content : Hunter2\<newline>''"
  have a: "extractKeyMaterial ascii_clib ([xml] ! 0) = Inr (wide ''Secret123'')"
    unfolding xml_def by code_simp
  have b: "line_step ascii_clib ([line] ! 0) [] = Inr (True, wide ''Hunter2'')"
    unfolding line_def by code_simp
  have "(0::nat) < length [xml]" "(0::nat) < length [line]" by simp_all
  with extractors_leave_input
    [where xml = 0 and h = "[xml]" and L = ascii_clib and line = 0 and g = "[line]" and found = "[]"]
    a b
  show ?thesis unfolding xml_def line_def by simp
qed

end
